theory Spec2Isabelle
  imports Main
begin

section \<open>Data model of cutting.py\<close>

text \<open>
  The program works on numpy arrays of Python integers. A two-dimensional array is a list
  of rows; a cell holding \<open>1\<close> is free, a committed cell holds \<open>-1\<close>. All sizes and
  coordinates are Python integers, hence \<open>int\<close>. Everything the source can raise is a value
  of \<open>error\<close>, and a function that can raise returns \<open>error + 'a\<close>.
\<close>

datatype error = IndexError | TypeError | ValueError

type_synonym matrix = "int list list"

text \<open>The dictionary of one article variant: keys \<open>id\<close>, \<open>cols\<close>, \<open>rows\<close>, \<open>gap\<close>, \<open>area\<close>.\<close>

record 'i dim =
  dim_id :: 'i
  cols :: int
  rows :: int
  gap :: int
  area :: int

text \<open>The dictionary built by \<open>add_area\<close>: keys \<open>area\<close> and \<open>dimensions\<close>.\<close>

record 'i layout =
  layout_area :: int
  dimensions :: "'i dim list"

text \<open>One placement record: keys \<open>id\<close>, \<open>col\<close>, \<open>row\<close>, \<open>cols\<close>.\<close>

record 'i coord =
  coord_id :: 'i
  coord_col :: int
  coord_row :: int
  coord_cols :: int

text \<open>One search state: keys \<open>ids\<close>, \<open>coords\<close>, \<open>page\<close>.\<close>

record 'i state =
  ids :: "'i list"
  coords :: "'i coord list"
  page :: matrix

section \<open>Array primitives\<close>

text \<open>
  A slice bound \<open>i\<close> on an axis of length \<open>n\<close>, as Python and numpy normalise it: a
  negative bound counts from the end, and the result is clamped to \<open>0..n\<close>.
\<close>

definition slice_idx :: "nat \<Rightarrow> int \<Rightarrow> nat" where
  "slice_idx n i = (if i < 0 then nat (max 0 (int n + i)) else min n (nat i))"

text \<open>\<open>xs[a:b]\<close>\<close>

definition slice :: "int \<Rightarrow> int \<Rightarrow> 'a list \<Rightarrow> 'a list" where
  "slice a b xs = drop (slice_idx (length xs) a) (take (slice_idx (length xs) b) xs)"

text \<open>\<open>matrix[r0:r1, c0:c1]\<close>\<close>

definition slice2 :: "int \<Rightarrow> int \<Rightarrow> int \<Rightarrow> int \<Rightarrow> matrix \<Rightarrow> matrix" where
  "slice2 r0 r1 c0 c1 m = map (slice c0 c1) (slice r0 r1 m)"

text \<open>\<open>xs[a:b] = v\<close> on one axis, with \<open>f\<close> applied to the selected entries.\<close>

definition map_slice :: "int \<Rightarrow> int \<Rightarrow> ('a \<Rightarrow> 'a) \<Rightarrow> 'a list \<Rightarrow> 'a list" where
  "map_slice a b f xs =
     map (\<lambda>(i, x). if slice_idx (length xs) a \<le> i \<and> i < slice_idx (length xs) b then f x else x)
       (enumerate 0 xs)"

text \<open>\<open>matrix[r0:r1, c0:c1] = -1\<close>\<close>

definition commit :: "int \<Rightarrow> int \<Rightarrow> int \<Rightarrow> int \<Rightarrow> matrix \<Rightarrow> matrix" where
  "commit r0 r1 c0 c1 m = map_slice r0 r1 (map_slice c0 c1 (\<lambda>_. - 1)) m"

text \<open>\<open>np.count_nonzero(a == 1)\<close>\<close>

definition count_free :: "matrix \<Rightarrow> nat" where
  "count_free m = length (filter (\<lambda>x. x = 1) (concat m))"

text \<open>\<open>np.where(matrix == v)\<close>: the matching positions in row-major order.\<close>

definition positions :: "int \<Rightarrow> matrix \<Rightarrow> (nat \<times> nat) list" where
  "positions v m =
     concat (map (\<lambda>(i, r). map (\<lambda>(j, x). (i, j)) (filter (\<lambda>(j, x). x = v) (enumerate 0 r)))
       (enumerate 0 m))"

section \<open>The functions of cutting.py\<close>

text \<open>\<open>rows[0], columns[0]\<close> raises IndexError when no cell is free.\<close>

definition find_empty_cel :: "matrix \<Rightarrow> error + (int \<times> int)" where
  "find_empty_cel m =
     (case positions 1 m of [] \<Rightarrow> Inl IndexError | (i, j) # _ \<Rightarrow> Inr (int i, int j))"

definition validate_area :: "'i dim list \<Rightarrow> int \<Rightarrow> int \<Rightarrow> bool" where
  "validate_area ds columns rws = (if sum_list (map area ds) \<le> columns * rws then True else False)"

definition add_area :: "'i dim list \<Rightarrow> 'i layout" where
  "add_area ds = \<lparr>layout_area = sum_list (map area ds), dimensions = ds\<rparr>"

definition validate_step :: "int \<Rightarrow> int \<Rightarrow> int \<Rightarrow> int \<Rightarrow> matrix \<Rightarrow> bool" where
  "validate_step rw cl rws cls m =
     (if int (count_free (slice2 rw (rw + rws) cl (cl + cls) m)) \<noteq> rws * cls then False else True)"

text \<open>
  \<open>np.ones((rows, columns), dtype=int)\<close> raises ValueError on a negative dimension, and
  ValueError again when a dimension or the size in bytes of the array (8 bytes per cell)
  exceeds the largest index of a 64-bit build. Below that bound the allocation can still
  fail for lack of memory on the machine at hand, which no input decides: what is proved
  of \<open>find_solution\<close> is proved of a run whose page was created.
\<close>

definition max_index :: int where
  "max_index = 9223372036854775807"

definition create_matrix :: "int \<Rightarrow> int \<Rightarrow> error + matrix" where
  "create_matrix rws columns =
     (if rws < 0 \<or> columns < 0 then Inl ValueError
      else if max_index < rws \<or> max_index < columns \<or> max_index < 8 * (rws * columns)
      then Inl ValueError
      else Inr (replicate (nat rws) (replicate (nat columns) 1)))"

text \<open>The state appended by one passage through the body of the loop of \<open>make_step\<close>.\<close>

definition place :: "'i state \<Rightarrow> int \<Rightarrow> int \<Rightarrow> 'i dim \<Rightarrow> 'i state" where
  "place r rw cl d =
     \<lparr>ids = ids r @ [dim_id d],
      coords = coords r @ [\<lparr>coord_id = dim_id d, coord_col = cl, coord_row = rw, coord_cols = cols d\<rparr>],
      page = commit rw (rw + rows d + gap d) cl (cl + cols d) (page r)\<rparr>"

text \<open>
  Every passage works on a fresh deep copy of \<open>parent\<close>, so each one reads the parent's
  page; \<open>find_empty_cel\<close> is called in every passage and its IndexError leaves the function.
\<close>

fun make_step :: "'i state \<Rightarrow> 'i dim list \<Rightarrow> error + 'i state list" where
  "make_step parent [] = Inr []"
| "make_step parent (d # ds) =
     (case find_empty_cel (page parent) of
        Inl e \<Rightarrow> Inl e
      | Inr (rw, cl) \<Rightarrow>
          (case make_step parent ds of
             Inl e \<Rightarrow> Inl e
           | Inr rest \<Rightarrow>
               Inr ((if validate_step rw cl (rows d + gap d) (cols d) (page parent)
                     then [place parent rw cl d] else []) @ rest)))"

text \<open>The root built for one variant by the first loop of \<open>find_solution\<close>.\<close>

definition seed :: "matrix \<Rightarrow> 'i dim \<Rightarrow> 'i state" where
  "seed pg d =
     \<lparr>ids = [dim_id d],
      coords = [\<lparr>coord_id = dim_id d, coord_col = 0, coord_row = 0, coord_cols = cols d\<rparr>],
      page = commit 0 (rows d + gap d) 0 (cols d) pg\<rparr>"

text \<open>\<open>[dim for dim in dimensions if dim['id'] not in variant['ids']]\<close>\<close>

definition unplaced :: "'i dim list \<Rightarrow> 'i state \<Rightarrow> 'i dim list" where
  "unplaced ds s = filter (\<lambda>d. dim_id d \<notin> set (ids s)) ds"

text \<open>
  One passage through the body of the \<open>while\<close> loop: \<open>ret.pop()\<close> takes the last element,
  \<open>steps + ret\<close> puts the successors in front of the remaining ones.
\<close>

definition iterate :: "'i dim list \<Rightarrow> 'i state list \<times> 'i state list \<Rightarrow>
    error + ('i state list \<times> 'i state list)" where
  "iterate ds rs =
     (case rs of (ret, solutions) \<Rightarrow>
        (let variant = last ret;
             dims = unplaced ds variant;
             solutions' = (if dims = [] then solutions @ [variant] else solutions)
         in case make_step variant dims of
              Inl e \<Rightarrow> Inl e
            | Inr steps \<Rightarrow> Inr (steps @ butlast ret, solutions')))"

section \<open>Termination of the search loop\<close>

text \<open>
  Every successor returned by \<open>make_step\<close> is the parent with one more article placed at the
  parent's first free cell, and there is at most one successor per candidate.
\<close>

lemma make_step_sound:
  assumes "make_step p ds = Inr steps" and "s \<in> set steps"
  shows "\<exists>d rw cl. d \<in> set ds \<and> find_empty_cel (page p) = Inr (rw, cl) \<and>
           validate_step rw cl (rows d + gap d) (cols d) (page p) \<and> s = place p rw cl d"
  using assms
proof (induction ds arbitrary: steps)
  case Nil
  then show ?case by simp
next
  case (Cons d ds)
  from Cons.prems(1) obtain rw cl rest where
    fe: "find_empty_cel (page p) = Inr (rw, cl)" and
    rest: "make_step p ds = Inr rest" and
    steps: "steps = (if validate_step rw cl (rows d + gap d) (cols d) (page p)
                     then [place p rw cl d] else []) @ rest"
    by (auto split: sum.splits prod.splits)
  show ?case
  proof (cases "s \<in> set rest")
    case True
    from Cons.IH[OF rest True] show ?thesis by auto
  next
    case False
    with steps Cons.prems(2)
    have "validate_step rw cl (rows d + gap d) (cols d) (page p)" and "s = place p rw cl d"
      by (auto split: if_splits)
    with fe show ?thesis by auto
  qed
qed

lemma make_step_length: "make_step p ds = Inr steps \<Longrightarrow> length steps \<le> length ds"
  by (induction ds arbitrary: steps) (auto split: sum.splits prod.splits if_splits)

text \<open>The weight of a pending state: exponential in the number of articles it still lacks.\<close>

definition weight :: "'i dim list \<Rightarrow> 'i state \<Rightarrow> nat" where
  "weight ds s = Suc (length ds) ^ length (unplaced ds s)"

lemma unplaced_place:
  "unplaced ds (place p rw cl d) = filter (\<lambda>e. dim_id e \<noteq> dim_id d) (unplaced ds p)"
  by (auto simp: unplaced_def place_def intro: filter_cong)

lemma unplaced_place_less:
  assumes "d \<in> set (unplaced ds p)"
  shows "length (unplaced ds (place p rw cl d)) < length (unplaced ds p)"
proof -
  have "length (filter (\<lambda>e. dim_id e \<noteq> dim_id d) (unplaced ds p)) < length (unplaced ds p)"
    using assms by (intro length_filter_less[of d]) auto
  then show ?thesis by (simp add: unplaced_place)
qed

lemma weight_steps:
  assumes "make_step p (unplaced ds p) = Inr steps"
  shows "sum_list (map (weight ds) steps) < weight ds p"
proof -
  let ?u = "length (unplaced ds p)"
  let ?b = "Suc (length ds)"
  have ule: "?u \<le> length ds" by (simp add: unplaced_def)
  show ?thesis
  proof (cases "?u = 0")
    case True
    then have "steps = []" using make_step_length[OF assms] by simp
    then show ?thesis by (simp add: weight_def)
  next
    case False
    then obtain k where k: "?u = Suc k" by (cases ?u) auto
    have each: "weight ds s \<le> ?b ^ k" if "s \<in> set steps" for s
    proof -
      from make_step_sound[OF assms that] obtain d rw cl
        where "d \<in> set (unplaced ds p)" "s = place p rw cl d" by blast
      then have "length (unplaced ds s) \<le> k" using unplaced_place_less[of d ds p rw cl] k by simp
      then show ?thesis unfolding weight_def by (intro power_increasing) auto
    qed
    have "sum_list (map (weight ds) steps) \<le> length steps * ?b ^ k"
      using each by (induction steps) (auto simp: add_mono)
    also have "\<dots> \<le> ?u * ?b ^ k" using make_step_length[OF assms] by simp
    also have "\<dots> \<le> length ds * ?b ^ k" using ule by (intro mult_le_mono1)
    also have "\<dots> < ?b * ?b ^ k" by simp
    finally show ?thesis by (simp add: weight_def k)
  qed
qed

section \<open>find_solution\<close>

text \<open>The \<open>while ret:\<close> loop.\<close>

function find_solution_loop ::
    "'i dim list \<Rightarrow> 'i state list \<Rightarrow> 'i state list \<Rightarrow> error + 'i state list" where
  "find_solution_loop ds ret solutions =
     (if ret = [] then Inr solutions
      else (case iterate ds (ret, solutions) of
              Inl e \<Rightarrow> Inl e
            | Inr (ret', solutions') \<Rightarrow> find_solution_loop ds ret' solutions'))"
  by pat_completeness auto
termination
proof (relation "measure (\<lambda>(ds, ret, solutions). sum_list (map (weight ds) ret))")
  show "wf (measure (\<lambda>(ds, ret, solutions). sum_list (map (weight ds) ret)))" by simp
next
  fix ds :: "'i dim list" and ret solutions :: "'i state list" and x2 x y
  assume ne: "ret \<noteq> []" and it: "iterate ds (ret, solutions) = Inr x2" and x: "(x, y) = x2"
  from it x obtain steps where st: "make_step (last ret) (unplaced ds (last ret)) = Inr steps"
    and xs: "x = steps @ butlast ret"
    by (auto simp: iterate_def Let_def split: sum.splits)
  have "sum_list (map (weight ds) ret) =
        sum_list (map (weight ds) (butlast ret)) + weight ds (last ret)"
  proof -
    have "ret = butlast ret @ [last ret]" using ne by simp
    then have "sum_list (map (weight ds) ret) =
               sum_list (map (weight ds) (butlast ret @ [last ret]))" by simp
    then show ?thesis by simp
  qed
  with weight_steps[OF st] xs
  show "((ds, x, y), (ds, ret, solutions))
          \<in> measure (\<lambda>(ds, ret, solutions). sum_list (map (weight ds) ret))"
    by simp
qed

declare find_solution_loop.simps [simp del]

definition find_solution :: "'i layout \<Rightarrow> int \<Rightarrow> int \<Rightarrow> error + 'i state list" where
  "find_solution l rws columns =
     (case create_matrix rws columns of
        Inl e \<Rightarrow> Inl e
      | Inr pg \<Rightarrow> find_solution_loop (dimensions l) (map (seed pg) (dimensions l)) [])"

section \<open>An invariant rule for the search loop\<close>

text \<open>
  A property \<open>P\<close> of search states that holds for every pending state and is kept by each
  placement made by \<open>make_step\<close> holds for every state the loop returns; a returned state
  moreover has no article left to place.
\<close>

lemma loop_invariant:
  assumes "find_solution_loop ds ret sols = Inr out"
    and "\<forall>s\<in>set ret. P s"
    and "\<forall>s\<in>set sols. P s \<and> unplaced ds s = []"
    and "\<And>p d rw cl. P p \<Longrightarrow> d \<in> set (unplaced ds p) \<Longrightarrow>
            find_empty_cel (page p) = Inr (rw, cl) \<Longrightarrow>
            validate_step rw cl (rows d + gap d) (cols d) (page p) \<Longrightarrow> P (place p rw cl d)"
  shows "\<forall>s\<in>set out. P s \<and> unplaced ds s = []"
  using assms
proof (induction ds ret sols rule: find_solution_loop.induct)
  case (1 ds ret solutions)
  note step = "1.prems"(4)
  show ?case
  proof (cases "ret = []")
    case True
    with "1.prems" show ?thesis by (simp add: find_solution_loop.simps[of ds "[]"])
  next
    case False
    from "1.prems"(1) False obtain ret' sols' where
      it: "iterate ds (ret, solutions) = Inr (ret', sols')" and
      rec: "find_solution_loop ds ret' sols' = Inr out"
      by (subst (asm) find_solution_loop.simps) (auto split: sum.splits)
    from it obtain steps where
      st: "make_step (last ret) (unplaced ds (last ret)) = Inr steps" and
      ret': "ret' = steps @ butlast ret" and
      sols': "sols' = (if unplaced ds (last ret) = [] then solutions @ [last ret] else solutions)"
      by (auto simp: iterate_def Let_def split: sum.splits)
    have Plast: "P (last ret)" using False "1.prems"(2) by simp
    have "\<forall>s\<in>set steps. P s"
    proof
      fix s assume "s \<in> set steps"
      from make_step_sound[OF st this] obtain d rw cl where
        d: "d \<in> set (unplaced ds (last ret))" and
        fe: "find_empty_cel (page (last ret)) = Inr (rw, cl)" and
        vs: "validate_step rw cl (rows d + gap d) (cols d) (page (last ret))" and
        s: "s = place (last ret) rw cl d"
        by blast
      show "P s" unfolding s by (rule step[OF Plast d fe vs])
    qed
    moreover have "\<forall>s\<in>set (butlast ret). P s"
      using "1.prems"(2) by (meson in_set_butlastD)
    ultimately have a: "\<forall>s\<in>set ret'. P s" by (auto simp: ret')
    have b: "\<forall>s\<in>set sols'. P s \<and> unplaced ds s = []"
      using "1.prems"(3) Plast by (auto simp: sols')
    from "1.IH"[OF False it refl rec a b step] show ?thesis .
  qed
qed

section \<open>Facts about the array primitives\<close>

text \<open>A matrix of \<open>R\<close> rows that all have \<open>C\<close> cells, as every numpy array of that shape is.\<close>

definition rect_matrix :: "nat \<Rightarrow> nat \<Rightarrow> matrix \<Rightarrow> bool" where
  "rect_matrix R C m = (length m = R \<and> (\<forall>r\<in>set m. length r = C))"

lemma slice_idx_nonneg: "0 \<le> i \<Longrightarrow> slice_idx n i = min n (nat i)"
  by (simp add: slice_idx_def)

lemma slice_nat: "0 \<le> a \<Longrightarrow> 0 \<le> b \<Longrightarrow> slice a b xs = drop (nat a) (take (nat b) xs)"
  by (simp add: slice_def slice_idx_nonneg min_def)

lemma slice2_nat:
  assumes "0 \<le> r0" "0 \<le> r1" "0 \<le> c0" "0 \<le> c1"
  shows "slice2 r0 r1 c0 c1 m =
         map (\<lambda>r. drop (nat c0) (take (nat c1) r)) (drop (nat r0) (take (nat r1) m))"
  using assms by (simp add: slice2_def slice_nat)

definition window :: "nat \<Rightarrow> nat \<Rightarrow> nat \<Rightarrow> nat \<Rightarrow> matrix \<Rightarrow> matrix" where
  "window r h c w m = map (\<lambda>x. drop c (take (c + w) x)) (drop r (take (r + h) m))"

lemma length_window: "length (window r h c w m) = min (r + h) (length m) - r"
  by (simp add: window_def min.commute)

lemma window_rows:
  assumes "rect_matrix R C m" "x \<in> set (window r h c w m)"
  shows "length x = min (c + w) C - c"
proof -
  from assms(2) obtain y where "y \<in> set m" "x = drop c (take (c + w) y)"
    by (auto simp: window_def dest!: in_set_dropD in_set_takeD)
  with assms(1) show ?thesis by (auto simp: rect_matrix_def min.commute)
qed

lemma length_concat_const:
  "\<forall>x\<in>set xss. length x = k \<Longrightarrow> length (concat xss) = length xss * k"
  by (induction xss) auto

lemma length_concat_window:
  assumes "rect_matrix R C m"
  shows "length (concat (window r h c w m)) = (min (r + h) R - r) * (min (c + w) C - c)"
proof -
  have "length (concat (window r h c w m)) = length (window r h c w m) * (min (c + w) C - c)"
    using window_rows[OF assms] by (intro length_concat_const) blast
  with assms show ?thesis by (simp add: length_window rect_matrix_def)
qed

lemma window_nth:
  assumes "rect_matrix R C m" "r + h \<le> R" "c + w \<le> C" "i < h" "j < w"
  shows "window r h c w m ! i ! j = m ! (r + i) ! (c + j)"
  using assms by (simp add: window_def rect_matrix_def)

lemma set_concat_window:
  assumes "rect_matrix R C m" "r + h \<le> R" "c + w \<le> C"
  shows "set (concat (window r h c w m)) = (\<Union>i<h. (\<lambda>j. m ! (r + i) ! (c + j)) ` {..<w})"
proof -
  let ?W = "window r h c w m"
  have len: "length ?W = h" using assms by (simp add: length_window rect_matrix_def)
  have rowlen: "length (?W ! i) = w" if "i < h" for i
    using window_rows[OF assms(1), of "?W ! i" r h c w] that len assms(3) by simp
  have "set (concat ?W) = (\<Union>i<h. set (?W ! i))"
    using len by (auto simp: set_conv_nth[of ?W])
  also have "\<dots> = (\<Union>i<h. (\<lambda>j. ?W ! i ! j) ` {..<w})"
    using rowlen by (auto simp: set_conv_nth)
  also have "\<dots> = (\<Union>i<h. (\<lambda>j. m ! (r + i) ! (c + j)) ` {..<w})"
    using window_nth[OF assms] by simp
  finally show ?thesis .
qed

lemma product_full:
  fixes a b h w :: nat
  assumes "a \<le> h" "b \<le> w" "h * w \<le> a * b" "0 < h" "0 < w"
  shows "a = h \<and> b = w"
proof -
  have 1: "a * b \<le> a * w" using assms(2) by (rule mult_le_mono2)
  have 2: "a * b \<le> h * b" using assms(1) by (rule mult_le_mono1)
  have "\<not> a < h"
  proof
    assume "a < h"
    then have "a * w < h * w" using assms(5) by (rule mult_less_mono1)
    with 1 assms(3) show False by linarith
  qed
  moreover have "\<not> b < w"
  proof
    assume "b < w"
    then have "h * b < h * w" using assms(4) by (rule mult_less_mono2)
    with 2 assms(3) show False by linarith
  qed
  ultimately show ?thesis using assms(1,2) by linarith
qed

lemma filter_full: "length (filter P xs) = length xs \<Longrightarrow> \<forall>x\<in>set xs. P x"
proof (induction xs)
  case Nil
  show ?case by simp
next
  case (Cons x xs)
  have le: "length (filter P xs) \<le> length xs" by (rule length_filter_le)
  show ?case
  proof (cases "P x")
    case True
    with Cons.prems have "length (filter P xs) = length xs" by simp
    then have "\<forall>y\<in>set xs. P y" by (rule Cons.IH)
    with True show ?thesis by simp
  next
    case False
    with Cons.prems have "length (filter P xs) = Suc (length xs)" by simp
    with le show ?thesis by arith
  qed
qed

lemma all_window:
  assumes "rect_matrix R C m" "r + h \<le> R" "c + w \<le> C"
  shows "(\<forall>x\<in>set (concat (window r h c w m)). x = 1) \<longleftrightarrow>
         (\<forall>i<h. \<forall>j<w. m ! (r + i) ! (c + j) = 1)"
proof
  assume a: "\<forall>x\<in>set (concat (window r h c w m)). x = 1"
  show "\<forall>i<h. \<forall>j<w. m ! (r + i) ! (c + j) = 1"
  proof (intro allI impI)
    fix i j assume "i < h" "j < w"
    then have "m ! (r + i) ! (c + j) \<in> (\<Union>i<h. (\<lambda>j. m ! (r + i) ! (c + j)) ` {..<w})"
      by blast
    then have "m ! (r + i) ! (c + j) \<in> set (concat (window r h c w m))"
      by (simp only: set_concat_window[OF assms])
    with a show "m ! (r + i) ! (c + j) = 1" by blast
  qed
next
  assume b: "\<forall>i<h. \<forall>j<w. m ! (r + i) ! (c + j) = 1"
  show "\<forall>x\<in>set (concat (window r h c w m)). x = 1"
  proof
    fix x assume "x \<in> set (concat (window r h c w m))"
    then have "x \<in> (\<Union>i<h. (\<lambda>j. m ! (r + i) ! (c + j)) ` {..<w})"
      by (simp only: set_concat_window[OF assms])
    then obtain i j where "i < h" "j < w" "x = m ! (r + i) ! (c + j)" by blast
    with b show "x = 1" by blast
  qed
qed

lemma count_free_window:
  assumes "rect_matrix R C m"
  shows "count_free (window r h c w m) = h * w \<longleftrightarrow>
         h * w = 0 \<or> (r + h \<le> R \<and> c + w \<le> C \<and> (\<forall>i<h. \<forall>j<w. m ! (r + i) ! (c + j) = 1))"
proof (cases "h * w = 0")
  case True
  then have "h = 0 \<or> w = 0" by simp
  then have "(min (r + h) R - r) * (min (c + w) C - c) = 0"
  proof
    assume "h = 0"
    then have "min (r + h) R - r = 0" by simp
    then show ?thesis by (simp only: mult_0)
  next
    assume "w = 0"
    then have "min (c + w) C - c = 0" by simp
    then show ?thesis by (simp only: mult_0_right)
  qed
  then have "length (concat (window r h c w m)) = 0"
    by (simp only: length_concat_window[OF assms])
  then have "concat (window r h c w m) = []" by (simp only: length_0_conv)
  then have "count_free (window r h c w m) = 0"
    unfolding count_free_def by (simp only: filter.simps list.size)
  with True show ?thesis by (simp only: simp_thms)
next
  case False
  then have hp: "0 < h" and wp: "0 < w" by simp_all
  let ?xs = "concat (window r h c w m)"
  have len: "length ?xs = (min (r + h) R - r) * (min (c + w) C - c)"
    by (rule length_concat_window[OF assms])
  have le1: "min (r + h) R - r \<le> h" by arith
  have le2: "min (c + w) C - c \<le> w" by arith
  have cf: "count_free (window r h c w m) = length (filter (\<lambda>x. x = 1) ?xs)"
    by (simp only: count_free_def)
  show ?thesis
  proof
    assume eq: "count_free (window r h c w m) = h * w"
    have "length (filter (\<lambda>x. x = 1) ?xs) \<le> length ?xs" by (rule length_filter_le)
    with eq cf len have ge: "h * w \<le> (min (r + h) R - r) * (min (c + w) C - c)"
      by (simp only:)
    from product_full[OF le1 le2 ge hp wp]
    have a: "min (r + h) R - r = h" and b: "min (c + w) C - c = w" by blast+
    from a hp have inR: "r + h \<le> R" by arith
    from b wp have inC: "c + w \<le> C" by arith
    from eq cf len a b have "length (filter (\<lambda>x. x = 1) ?xs) = length ?xs"
      by (simp only:)
    then have "\<forall>x\<in>set ?xs. x = 1" by (rule filter_full)
    then have "\<forall>i<h. \<forall>j<w. m ! (r + i) ! (c + j) = 1"
      by (simp only: all_window[OF assms inR inC])
    with inR inC
    show "h * w = 0 \<or> (r + h \<le> R \<and> c + w \<le> C \<and> (\<forall>i<h. \<forall>j<w. m ! (r + i) ! (c + j) = 1))"
      by blast
  next
    assume "h * w = 0 \<or> (r + h \<le> R \<and> c + w \<le> C \<and> (\<forall>i<h. \<forall>j<w. m ! (r + i) ! (c + j) = 1))"
    with False have inR: "r + h \<le> R" and inC: "c + w \<le> C"
      and free: "\<forall>i<h. \<forall>j<w. m ! (r + i) ! (c + j) = 1" by simp_all
    from free have "\<forall>x\<in>set ?xs. x = 1"
      by (simp only: all_window[OF assms inR inC])
    then have "filter (\<lambda>x. x = 1) ?xs = ?xs" by (simp only: filter_True)
    then have 1: "count_free (window r h c w m) = length ?xs" by (simp only: cf)
    have 2: "min (r + h) R - r = h" using inR by arith
    have 3: "min (c + w) C - c = w" using inC by arith
    show "count_free (window r h c w m) = h * w" by (simp only: 1 len 2 3)
  qed
qed

lemma validate_step_window:
  assumes "0 \<le> rw" "0 \<le> cl" "0 \<le> h" "0 \<le> w"
  shows "validate_step rw cl h w m \<longleftrightarrow>
         count_free (window (nat rw) (nat h) (nat cl) (nat w) m) = nat h * nat w"
proof -
  let ?W = "window (nat rw) (nat h) (nat cl) (nat w) m"
  have 1: "slice2 rw (rw + h) cl (cl + w) m = ?W"
    using assms by (simp add: slice2_nat window_def nat_add_distrib)
  have 2: "h * w = int (nat h * nat w)" using assms by simp
  have "validate_step rw cl h w m \<longleftrightarrow> int (count_free ?W) = int (nat h * nat w)"
    unfolding validate_step_def 1 2 by (simp only: if_not_P not_not if_bool_eq_conj simp_thms)
  then show ?thesis by (simp only: of_nat_eq_iff)
qed

lemma validate_step_char:
  assumes "rect_matrix R C m" and "0 \<le> rw" and "0 \<le> cl" and "0 \<le> h" and "0 \<le> w"
  shows "validate_step rw cl h w m \<longleftrightarrow>
           h = 0 \<or> w = 0 \<or>
           (rw + h \<le> int R \<and> cl + w \<le> int C \<and>
            (\<forall>i<nat h. \<forall>j<nat w. m ! (nat rw + i) ! (nat cl + j) = 1))"
proof -
  have 1: "nat h * nat w = 0 \<longleftrightarrow> h = 0 \<or> w = 0" using assms(4,5) by auto
  have 2: "nat rw + nat h \<le> R \<longleftrightarrow> rw + h \<le> int R" using assms(2,4) by linarith
  have 3: "nat cl + nat w \<le> C \<longleftrightarrow> cl + w \<le> int C" using assms(3,5) by linarith
  show ?thesis
    unfolding validate_step_window[OF assms(2-5)] count_free_window[OF assms(1)] 1 2 3
    by blast
qed

lemma length_map_slice: "length (map_slice a b f xs) = length xs"
  by (simp add: map_slice_def)

lemma map_slice_nth:
  "i < length xs \<Longrightarrow> map_slice a b f xs ! i =
     (if slice_idx (length xs) a \<le> i \<and> i < slice_idx (length xs) b then f (xs ! i) else xs ! i)"
  by (simp add: map_slice_def nth_enumerate_eq)

lemma length_commit: "length (commit r0 r1 c0 c1 m) = length m"
  by (simp add: commit_def length_map_slice)

lemma commit_row:
  assumes "i < length m"
  shows "commit r0 r1 c0 c1 m ! i =
     (if slice_idx (length m) r0 \<le> i \<and> i < slice_idx (length m) r1
      then map_slice c0 c1 (\<lambda>_. - 1) (m ! i) else m ! i)"
  using assms by (simp add: commit_def map_slice_nth)

lemma length_commit_row:
  assumes "i < length m"
  shows "length (commit r0 r1 c0 c1 m ! i) = length (m ! i)"
  using assms by (simp add: commit_row length_map_slice)

lemma commit_nth:
  assumes "i < length m" "j < length (m ! i)"
  shows "commit r0 r1 c0 c1 m ! i ! j =
     (if slice_idx (length m) r0 \<le> i \<and> i < slice_idx (length m) r1 \<and>
         slice_idx (length (m ! i)) c0 \<le> j \<and> j < slice_idx (length (m ! i)) c1
      then - 1 else m ! i ! j)"
  using assms by (simp add: commit_row map_slice_nth)

lemma rect_matrix_commit:
  assumes "rect_matrix R C m"
  shows "rect_matrix R C (commit r0 r1 c0 c1 m)"
proof -
  have "length (commit r0 r1 c0 c1 m) = R" using assms by (simp add: length_commit rect_matrix_def)
  moreover have "length x = C" if "x \<in> set (commit r0 r1 c0 c1 m)" for x
  proof -
    from that obtain i where i: "i < length (commit r0 r1 c0 c1 m)" and x: "x = commit r0 r1 c0 c1 m ! i"
      by (auto simp: in_set_conv_nth)
    then have "i < length m" by (simp add: length_commit)
    then have "length x = length (m ! i)" and "m ! i \<in> set m" unfolding x
      by (simp_all add: length_commit_row)
    with assms show ?thesis by (simp add: rect_matrix_def)
  qed
  ultimately show ?thesis by (simp add: rect_matrix_def)
qed

section \<open>Scenario C: two unit articles on a page of one row and two columns\<close>

definition scenario_c :: "string layout" where
  "scenario_c = \<lparr>layout_area = 2, dimensions =
     [\<lparr>dim_id = ''A'', cols = 1, rows = 1, gap = 0, area = 1\<rparr>,
      \<lparr>dim_id = ''B'', cols = 1, rows = 1, gap = 0, area = 1\<rparr>]\<rparr>"

definition scenario_c_BA :: "string state" where
  "scenario_c_BA =
     \<lparr>ids = [''B'', ''A''],
      coords = [\<lparr>coord_id = ''B'', coord_col = 0, coord_row = 0, coord_cols = 1\<rparr>,
                \<lparr>coord_id = ''A'', coord_col = 1, coord_row = 0, coord_cols = 1\<rparr>],
      page = [[- 1, - 1]]\<rparr>"

definition scenario_c_AB :: "string state" where
  "scenario_c_AB =
     \<lparr>ids = [''A'', ''B''],
      coords = [\<lparr>coord_id = ''A'', coord_col = 0, coord_row = 0, coord_cols = 1\<rparr>,
                \<lparr>coord_id = ''B'', coord_col = 1, coord_row = 0, coord_cols = 1\<rparr>],
      page = [[- 1, - 1]]\<rparr>"

lemma scenario_c_run: "find_solution scenario_c 1 2 = Inr [scenario_c_BA, scenario_c_AB]"
  by code_simp

text \<open>
  Claim C7. On a page of 1 row and 2 columns, with articles A and B of one variant each
  (1 column, 1 row, gap 0), \<open>find_solution\<close> returns exactly two solutions: B at column 0
  with A at column 1, and A at column 0 with B at column 1.
\<close>

theorem scenario_c_two_solutions:
  "find_solution
     \<lparr>layout_area = 2, dimensions =
        [\<lparr>dim_id = ''A'', cols = 1, rows = 1, gap = 0, area = 1\<rparr>,
         \<lparr>dim_id = ''B'', cols = 1, rows = 1, gap = 0, area = 1\<rparr>]\<rparr> 1 2 =
     Inr [\<lparr>ids = [''B'', ''A''],
           coords = [\<lparr>coord_id = ''B'', coord_col = 0, coord_row = 0, coord_cols = 1\<rparr>,
                     \<lparr>coord_id = ''A'', coord_col = 1, coord_row = 0, coord_cols = 1\<rparr>],
           page = [[- 1, - 1]]\<rparr>,
          \<lparr>ids = [''A'', ''B''],
           coords = [\<lparr>coord_id = ''A'', coord_col = 0, coord_row = 0, coord_cols = 1\<rparr>,
                     \<lparr>coord_id = ''B'', coord_col = 1, coord_row = 0, coord_cols = 1\<rparr>],
           page = [[- 1, - 1]]\<rparr>]"
  by code_simp

section \<open>A combination of a single article\<close>

lemma create_matrix_Inr:
  assumes "create_matrix R C = Inr pg"
  shows "pg = replicate (nat R) (replicate (nat C) 1)"
  using assms by (simp add: create_matrix_def split: if_splits)

lemma commit_fresh_nth:
  assumes "0 \<le> h" "0 \<le> w" "i < n" "j < k"
  shows "commit 0 h 0 w (replicate n (replicate k 1)) ! i ! j =
         (if int i < h \<and> int j < w then - 1 else 1)"
proof -
  have "commit 0 h 0 w (replicate n (replicate k 1)) ! i ! j =
        (if i < slice_idx n h \<and> j < slice_idx k w then - 1 else 1)"
    using assms(3,4) by (simp add: commit_nth slice_idx_def)
  moreover have "i < slice_idx n h \<longleftrightarrow> int i < h"
    using assms(1,3) by (auto simp: slice_idx_def)
  moreover have "j < slice_idx k w \<longleftrightarrow> int j < w"
    using assms(2,4) by (auto simp: slice_idx_def)
  ultimately show ?thesis by simp
qed

lemma single_article_run:
  assumes "dimensions l = [d]" and "create_matrix R C = Inr pg"
  shows "find_solution l R C = Inr [seed pg d]"
proof -
  have u: "unplaced [d] (seed pg d) = []" by (simp add: unplaced_def seed_def)
  have it: "iterate [d] ([seed pg d], []) = Inr ([], [seed pg d])"
    by (simp add: iterate_def u)
  have "find_solution_loop [d] [seed pg d] [] = find_solution_loop [d] [] [seed pg d]"
    by (subst find_solution_loop.simps) (simp add: it)
  also have "\<dots> = Inr [seed pg d]"
    by (subst find_solution_loop.simps) simp
  finally show ?thesis using assms by (simp add: find_solution_def)
qed

text \<open>
  Claim C9. The roots are committed at row 0, column 0 with no test of fit, the slice being
  clamped to the page. For a combination of one article and a page that was created,
  whatever the footprint (in particular one that exceeds the page in height or in width),
  \<open>find_solution\<close> returns the list holding exactly that root: the article recorded at
  row 0, column 0, on a page of the size asked for in which the cells marked are exactly
  those of the footprint \<open>(rows + gap) \<times> cols\<close> that lie on the page, every other cell
  being free.
\<close>

theorem single_article_seed:
  assumes "dimensions l = [d]" and "create_matrix R C = Inr pg"
  shows "\<exists>p. find_solution l R C =
           Inr [\<lparr>ids = [dim_id d],
                 coords = [\<lparr>coord_id = dim_id d, coord_col = 0, coord_row = 0,
                            coord_cols = cols d\<rparr>],
                 page = p\<rparr>] \<and>
           length p = nat R \<and> (\<forall>i<nat R. length (p ! i) = nat C) \<and>
           (0 \<le> rows d + gap d \<longrightarrow> 0 \<le> cols d \<longrightarrow>
              (\<forall>i<nat R. \<forall>j<nat C.
                 p ! i ! j = (if int i < rows d + gap d \<and> int j < cols d then - 1 else 1)))"
proof -
  let ?p = "commit 0 (rows d + gap d) 0 (cols d) pg"
  have pg: "pg = replicate (nat R) (replicate (nat C) 1)"
    by (rule create_matrix_Inr[OF assms(2)])
  have 1: "find_solution l R C =
           Inr [\<lparr>ids = [dim_id d],
                 coords = [\<lparr>coord_id = dim_id d, coord_col = 0, coord_row = 0,
                            coord_cols = cols d\<rparr>],
                 page = ?p\<rparr>]"
    using single_article_run[OF assms] by (simp add: seed_def)
  have 2: "length ?p = nat R" by (simp add: length_commit pg)
  have 3: "\<forall>i<nat R. length (?p ! i) = nat C" by (simp add: length_commit_row pg)
  have 4: "0 \<le> rows d + gap d \<longrightarrow> 0 \<le> cols d \<longrightarrow>
           (\<forall>i<nat R. \<forall>j<nat C.
              ?p ! i ! j = (if int i < rows d + gap d \<and> int j < cols d then - 1 else 1))"
    unfolding pg by (intro impI allI) (rule commit_fresh_nth)
  from 1 2 3 4 show ?thesis by blast
qed

text \<open>
  An article three columns wide and two rows high (one of them gap) on a page of three rows
  and two columns: wider than the page, lower than the page.
\<close>

definition oversize :: "string dim" where
  "oversize = \<lparr>dim_id = ''A'', cols = 3, rows = 1, gap = 1, area = 6\<rparr>"

lemma oversize_page: "create_matrix 3 2 = Inr [[1, 1], [1, 1], [1, 1]]"
  by code_simp

lemma oversize_run:
  "find_solution \<lparr>layout_area = 6, dimensions = [oversize]\<rparr> 3 2 =
     Inr [\<lparr>ids = [''A''],
           coords = [\<lparr>coord_id = ''A'', coord_col = 0, coord_row = 0, coord_cols = 3\<rparr>],
           page = [[- 1, - 1], [- 1, - 1], [1, 1]]\<rparr>]"
  by code_simp

theorem single_article_seed_witness:
  "dimensions \<lparr>layout_area = 6, dimensions = [oversize]\<rparr> = [oversize] \<and>
   create_matrix 3 2 = Inr [[1, 1], [1, 1], [1, 1]] \<and>
   2 < cols oversize \<and> rows oversize + gap oversize < 3 \<and>
   find_solution \<lparr>layout_area = 6, dimensions = [oversize]\<rparr> 3 2 =
     Inr [\<lparr>ids = [''A''],
           coords = [\<lparr>coord_id = ''A'', coord_col = 0, coord_row = 0, coord_cols = 3\<rparr>],
           page = [[- 1, - 1], [- 1, - 1], [1, 1]]\<rparr>] \<and>
   (\<exists>p. find_solution \<lparr>layout_area = 6, dimensions = [oversize]\<rparr> 3 2 =
           Inr [\<lparr>ids = [dim_id oversize],
                 coords = [\<lparr>coord_id = dim_id oversize, coord_col = 0, coord_row = 0,
                            coord_cols = cols oversize\<rparr>],
                 page = p\<rparr>] \<and>
           length p = nat 3 \<and> (\<forall>i<nat 3. length (p ! i) = nat 2) \<and>
           (0 \<le> rows oversize + gap oversize \<longrightarrow> 0 \<le> cols oversize \<longrightarrow>
              (\<forall>i<nat 3. \<forall>j<nat 2.
                 p ! i ! j =
                 (if int i < rows oversize + gap oversize \<and> int j < cols oversize
                  then - 1 else 1))))"
proof -
  have d: "dimensions \<lparr>layout_area = 6, dimensions = [oversize]\<rparr> = [oversize]" by simp
  have s: "2 < cols oversize \<and> rows oversize + gap oversize < 3" by (simp add: oversize_def)
  from single_article_seed [OF d oversize_page] d oversize_page s oversize_run
  show ?thesis by blast
qed

section \<open>Every article exactly once\<close>

text \<open>
  Claim C6. For every solution returned by \<open>find_solution\<close> on a combination whose article
  ids are pairwise distinct, the list of placed ids has no repetition and holds exactly
  the ids of the combination: every article once, none missing, none twice.
\<close>

theorem solution_ids_exactly_once:
  assumes "find_solution l R C = Inr sols" and "s \<in> set sols"
    and "distinct (map dim_id (dimensions l))"
  shows "distinct (ids s) \<and> set (ids s) = set (map dim_id (dimensions l))"
proof -
  let ?ds = "dimensions l"
  let ?P = "\<lambda>s. distinct (ids s) \<and> set (ids s) \<subseteq> dim_id ` set ?ds"
  from assms(1) obtain pg where
    loop: "find_solution_loop ?ds (map (seed pg) ?ds) [] = Inr sols"
    by (auto simp: find_solution_def split: sum.splits)
  have "\<forall>s\<in>set sols. ?P s \<and> unplaced ?ds s = []"
  proof (rule loop_invariant[OF loop])
    show "\<forall>s\<in>set (map (seed pg) ?ds). ?P s" by (auto simp: seed_def)
    show "\<forall>s\<in>set []. ?P s \<and> unplaced ?ds s = []" by simp
  next
    fix p d rw cl
    assume "?P p" and "d \<in> set (unplaced ?ds p)"
    then show "?P (place p rw cl d)" by (auto simp: place_def unplaced_def)
  qed
  with assms(2) have P: "?P s" and u: "unplaced ?ds s = []" by auto
  from u have "dim_id ` set ?ds \<subseteq> set (ids s)"
    by (auto simp: unplaced_def filter_empty_conv)
  with P show ?thesis by auto
qed

theorem solution_ids_exactly_once_witness:
  "find_solution scenario_c 1 2 = Inr [scenario_c_BA, scenario_c_AB] \<and>
   scenario_c_BA \<in> set [scenario_c_BA, scenario_c_AB] \<and>
   distinct (map dim_id (dimensions scenario_c)) \<and>
   distinct (ids scenario_c_BA) \<and>
   set (ids scenario_c_BA) = set (map dim_id (dimensions scenario_c))"
proof -
  have d: "distinct (map dim_id (dimensions scenario_c))" by (simp add: scenario_c_def)
  have m: "scenario_c_BA \<in> set [scenario_c_BA, scenario_c_AB]" by simp
  from solution_ids_exactly_once [OF scenario_c_run m d] scenario_c_run m d
  show ?thesis by blast
qed

section \<open>What validate_step decides\<close>

text \<open>
  A rectangle of two cells on a grid of one free cell: the slice is clamped to the one
  cell, one free cell is counted where two are required, and the result is the plain
  value \<open>False\<close>. The function has no error to raise on this path.
\<close>

theorem validate_step_silent_counterexample: "validate_step 0 0 1 2 [[1]] = False"
  by code_simp

text \<open>
  Claim C8, as amended. For a grid of \<open>R\<close> rows and \<open>C\<close> columns and non-negative
  \<open>row\<close>, \<open>col\<close>, \<open>h\<close>, \<open>w\<close>, \<open>validate_step\<close> returns \<open>True\<close> exactly when the rectangle
  has no cell (\<open>h = 0\<close> or \<open>w = 0\<close>) or lies within the grid and every cell of it is free.
  In particular, within the grid it returns \<open>True\<close> iff every cell of the rectangle is free,
  and for a rectangle of at least one cell that extends outside the grid it returns
  \<open>False\<close>: a result, not an error.
\<close>

theorem validate_step_spec:
  assumes "rect_matrix R C m" and "0 \<le> rw" and "0 \<le> cl" and "0 \<le> h" and "0 \<le> w"
  shows "validate_step rw cl h w m \<longleftrightarrow>
           h = 0 \<or> w = 0 \<or>
           (rw + h \<le> int R \<and> cl + w \<le> int C \<and>
            (\<forall>i<nat h. \<forall>j<nat w. m ! (nat rw + i) ! (nat cl + j) = 1))"
  using assms by (rule validate_step_char)

lemma validate_step_examples:
  "validate_step 0 0 2 1 [[1, - 1], [1, 1]] \<and> \<not> validate_step 0 0 2 2 [[1, - 1], [1, 1]] \<and>
   \<not> validate_step 0 0 3 1 [[1, - 1], [1, 1]]"
  by code_simp

theorem validate_step_spec_witness:
  "rect_matrix 2 2 [[1, - 1], [1, 1]] \<and> (0::int) \<le> 0 \<and> (0::int) \<le> 2 \<and> (0::int) \<le> 1 \<and>
   (validate_step 0 0 2 1 [[1, - 1], [1, 1]] \<longleftrightarrow>
      (2::int) = 0 \<or> (1::int) = 0 \<or>
      (0 + 2 \<le> int 2 \<and> 0 + 1 \<le> int 2 \<and>
       (\<forall>i<nat 2. \<forall>j<nat 1. [[1, - 1], [1, 1::int]] ! (nat 0 + i) ! (nat 0 + j) = 1))) \<and>
   validate_step 0 0 2 1 [[1, - 1], [1, 1]] \<and> \<not> validate_step 0 0 2 2 [[1, - 1], [1, 1]] \<and>
   \<not> validate_step 0 0 3 1 [[1, - 1], [1, 1]]"
proof -
  have r: "rect_matrix 2 2 [[1, - 1], [1, 1]]" by (simp add: rect_matrix_def)
  from validate_step_spec [OF r, of 0 0 2 1] r validate_step_examples show ?thesis by simp
qed

section \<open>The order of the traversal\<close>

text \<open>The two roots of scenario C, on the fresh page of one row and two columns.\<close>

definition root_A :: "string state" where
  "root_A = seed [[1, 1]] \<lparr>dim_id = ''A'', cols = 1, rows = 1, gap = 0, area = 1\<rparr>"

definition root_B :: "string state" where
  "root_B = seed [[1, 1]] \<lparr>dim_id = ''B'', cols = 1, rows = 1, gap = 0, area = 1\<rparr>"

lemma scenario_c_first_iteration:
  "iterate (dimensions scenario_c) ([root_A, root_B], []) = Inr ([scenario_c_BA, root_A], [])"
  by code_simp

text \<open>
  The first passage of the loop in scenario C takes the root of B and expands it into one
  successor, B then A. The pending list is then that successor followed by the root of A,
  and the state taken next, the last one, is the root of A: not the successor just
  produced.
\<close>

theorem depth_first_counterexample:
  "make_step root_B (unplaced (dimensions scenario_c) root_B) = Inr [scenario_c_BA] \<and>
   iterate (dimensions scenario_c) ([root_A, root_B], []) = Inr ([scenario_c_BA, root_A], []) \<and>
   last [scenario_c_BA, root_A] = root_A \<and> root_A \<notin> set [scenario_c_BA]"
  by code_simp

text \<open>
  Claim C4, as amended. One passage of the loop of \<open>find_solution\<close> takes the last pending
  state, expands it, and puts its successors in front of the states that remain. So while
  other states remain pending, the state taken next is the last of those, whatever the
  successors are; a successor just produced is taken next only when no other state is
  pending, and it is then the last successor produced. States are served first in, first
  out.
\<close>

theorem next_state_taken:
  assumes "ret \<noteq> []" and "iterate ds (ret, sols) = Inr (ret', sols')"
  shows "\<exists>steps. make_step (last ret) (unplaced ds (last ret)) = Inr steps \<and>
           ret' = steps @ butlast ret \<and>
           (butlast ret \<noteq> [] \<longrightarrow> last ret' = last (butlast ret)) \<and>
           (butlast ret = [] \<longrightarrow> steps \<noteq> [] \<longrightarrow> last ret' = last steps)"
proof -
  from assms(2) obtain steps where
    st: "make_step (last ret) (unplaced ds (last ret)) = Inr steps" and
    ret': "ret' = steps @ butlast ret"
    by (auto simp: iterate_def Let_def split: sum.splits)
  have "butlast ret \<noteq> [] \<longrightarrow> last ret' = last (butlast ret)" by (simp add: ret')
  moreover have "butlast ret = [] \<longrightarrow> steps \<noteq> [] \<longrightarrow> last ret' = last steps" by (simp add: ret')
  ultimately show ?thesis using st ret' by blast
qed

theorem next_state_taken_witness:
  "[root_A, root_B] \<noteq> [] \<and>
   iterate (dimensions scenario_c) ([root_A, root_B], []) = Inr ([scenario_c_BA, root_A], []) \<and>
   (\<exists>steps. make_step (last [root_A, root_B])
               (unplaced (dimensions scenario_c) (last [root_A, root_B])) = Inr steps \<and>
           [scenario_c_BA, root_A] = steps @ butlast [root_A, root_B] \<and>
           (butlast [root_A, root_B] \<noteq> [] \<longrightarrow>
              last [scenario_c_BA, root_A] = last (butlast [root_A, root_B])) \<and>
           (butlast [root_A, root_B] = [] \<longrightarrow> steps \<noteq> [] \<longrightarrow>
              last [scenario_c_BA, root_A] = last steps))"
proof -
  have n: "[root_A, root_B] \<noteq> []" by simp
  from next_state_taken [OF n scenario_c_first_iteration] n scenario_c_first_iteration
  show ?thesis by blast
qed

section \<open>The rectangles of a solution are disjoint\<close>

text \<open>The cells of the rectangle of \<open>h\<close> rows and \<open>w\<close> columns anchored at row \<open>rw\<close>, column \<open>cl\<close>.\<close>

definition rect :: "int \<Rightarrow> int \<Rightarrow> int \<Rightarrow> int \<Rightarrow> (int \<times> int) set" where
  "rect rw cl h w = {(i, j). rw \<le> i \<and> i < rw + h \<and> cl \<le> j \<and> j < cl + w}"

text \<open>
  A placement record keeps the id, the anchor and the width of what was committed, not the
  height. Its rectangle is that of the member of the combination it was committed for:
  \<open>rows + gap\<close> high, as wide as recorded.
\<close>

definition footprint :: "'i coord \<Rightarrow> 'i dim \<Rightarrow> (int \<times> int) set" where
  "footprint c v = rect (coord_row c) (coord_col c) (rows v + gap v) (coord_cols c)"

text \<open>A record can stand for a member of the combination with its id and its width.\<close>

definition committed_as :: "'i dim list \<Rightarrow> 'i coord \<Rightarrow> 'i dim \<Rightarrow> bool" where
  "committed_as ds c v = (v \<in> set ds \<and> dim_id v = coord_id c \<and> cols v = coord_cols c)"

definition pairwise_disjoint :: "'a set list \<Rightarrow> bool" where
  "pairwise_disjoint xs = (\<forall>i<length xs. \<forall>j<length xs. i \<noteq> j \<longrightarrow> xs ! i \<inter> xs ! j = {})"

text \<open>The cells of a page that are not free.\<close>

definition occupied :: "matrix \<Rightarrow> (int \<times> int) set" where
  "occupied m = {(i, j). 0 \<le> i \<and> 0 \<le> j \<and> nat i < length m \<and> nat j < length (m ! nat i) \<and>
                  m ! nat i ! nat j \<noteq> 1}"

lemma pairwise_disjoint_snoc:
  assumes "pairwise_disjoint xs" and "\<forall>X\<in>set xs. X \<inter> A = {}"
  shows "pairwise_disjoint (xs @ [A])"
  unfolding pairwise_disjoint_def
proof (intro allI impI)
  fix i j assume i: "i < length (xs @ [A])" and j: "j < length (xs @ [A])" and ne: "i \<noteq> j"
  show "(xs @ [A]) ! i \<inter> (xs @ [A]) ! j = {}"
  proof (cases "i < length xs")
    case True
    note ti = True
    show ?thesis
    proof (cases "j < length xs")
      case True
      with ti ne assms(1) show ?thesis by (simp add: pairwise_disjoint_def nth_append)
    next
      case False
      with j have "j = length xs" by simp
      moreover have "xs ! i \<in> set xs" using ti by simp
      ultimately show ?thesis using ti assms(2) by (simp add: nth_append)
    qed
  next
    case False
    with i have ii: "i = length xs" by simp
    with ne j have jj: "j < length xs" by simp
    then have "xs ! j \<in> set xs" by simp
    with assms(2) have "xs ! j \<inter> A = {}" by blast
    then have "A \<inter> xs ! j = {}" by blast
    with ii jj show ?thesis by (simp add: nth_append)
  qed
qed

lemma find_empty_cel_nonneg:
  assumes "find_empty_cel m = Inr (rw, cl)"
  shows "0 \<le> rw \<and> 0 \<le> cl"
  using assms by (auto simp: find_empty_cel_def split: list.splits)

lemma occupied_commit_mono: "occupied m \<subseteq> occupied (commit r0 r1 c0 c1 m)"
proof
  fix x assume x: "x \<in> occupied m"
  obtain i j where ij: "x = (i, j)" by (cases x)
  from x ij have a: "0 \<le> i" "0 \<le> j" "nat i < length m" "nat j < length (m ! nat i)"
    "m ! nat i ! nat j \<noteq> 1" by (simp_all add: occupied_def)
  have "commit r0 r1 c0 c1 m ! nat i ! nat j \<noteq> 1"
    using a(3,4,5) by (simp add: commit_nth)
  with a show "x \<in> occupied (commit r0 r1 c0 c1 m)"
    by (simp add: ij occupied_def length_commit length_commit_row)
qed

lemma rect_occupied_commit:
  assumes "rect_matrix R C m" and "0 \<le> rw" and "0 \<le> cl"
    and "rw + h \<le> int R" and "cl + w \<le> int C"
  shows "rect rw cl h w \<subseteq> occupied (commit rw (rw + h) cl (cl + w) m)"
proof
  fix x assume x: "x \<in> rect rw cl h w"
  obtain i j where ij: "x = (i, j)" by (cases x)
  from x ij have r: "rw \<le> i" "i < rw + h" "cl \<le> j" "j < cl + w" by (simp_all add: rect_def)
  have len: "length m = R" using assms(1) by (simp add: rect_matrix_def)
  have i: "nat i < length m" using r assms(2,4) len by linarith
  then have "m ! nat i \<in> set m" by simp
  then have lenr: "length (m ! nat i) = C" using assms(1) by (simp add: rect_matrix_def)
  have j: "nat j < length (m ! nat i)" using r assms(3,5) lenr by linarith
  have s1: "slice_idx R rw \<le> nat i" using r assms(2) by (auto simp: slice_idx_def)
  have s2: "nat i < slice_idx R (rw + h)" using r assms(2,4) by (auto simp: slice_idx_def)
  have s3: "slice_idx C cl \<le> nat j" using r assms(3) by (auto simp: slice_idx_def)
  have s4: "nat j < slice_idx C (cl + w)" using r assms(3,5) by (auto simp: slice_idx_def)
  have "commit rw (rw + h) cl (cl + w) m ! nat i ! nat j = - 1"
    using i j s1 s2 s3 s4 by (simp add: commit_nth len lenr)
  moreover have "0 \<le> i" "0 \<le> j" using r assms(2,3) by linarith+
  ultimately show "x \<in> occupied (commit rw (rw + h) cl (cl + w) m)"
    using i j by (simp add: ij occupied_def length_commit length_commit_row)
qed

lemma validate_step_free:
  assumes "rect_matrix R C m" and "0 \<le> rw" and "0 \<le> cl" and "0 \<le> h" and "0 \<le> w"
    and "validate_step rw cl h w m"
  shows "rect rw cl h w \<inter> occupied m = {}"
    and "rect rw cl h w = {} \<or> (rw + h \<le> int R \<and> cl + w \<le> int C)"
proof -
  from assms(6) validate_step_char[OF assms(1-5)]
  consider "h = 0 \<or> w = 0"
    | "rw + h \<le> int R" "cl + w \<le> int C"
      "\<forall>i<nat h. \<forall>j<nat w. m ! (nat rw + i) ! (nat cl + j) = 1"
    by blast
  then have "rect rw cl h w \<inter> occupied m = {} \<and>
             (rect rw cl h w = {} \<or> (rw + h \<le> int R \<and> cl + w \<le> int C))"
  proof cases
    case 1
    then have "rect rw cl h w = {}" by (auto simp: rect_def)
    then show ?thesis by simp
  next
    case 2
    have "x \<notin> occupied m" if x: "x \<in> rect rw cl h w" for x
    proof -
      obtain i j where ij: "x = (i, j)" by (cases x)
      from x ij have r: "rw \<le> i" "i < rw + h" "cl \<le> j" "j < cl + w" by (simp_all add: rect_def)
      have "nat (i - rw) < nat h" "nat (j - cl) < nat w" using r by linarith+
      with 2(3) have "m ! (nat rw + nat (i - rw)) ! (nat cl + nat (j - cl)) = 1" by blast
      moreover have "nat rw + nat (i - rw) = nat i" using r assms(2) by linarith
      moreover have "nat cl + nat (j - cl) = nat j" using r assms(3) by linarith
      ultimately have "m ! nat i ! nat j = 1" by simp
      then show ?thesis by (simp add: ij occupied_def)
    qed
    with 2(1,2) show ?thesis by blast
  qed
  then show "rect rw cl h w \<inter> occupied m = {}"
    and "rect rw cl h w = {} \<or> (rw + h \<le> int R \<and> cl + w \<le> int C)" by blast+
qed

text \<open>A variant fits within the page bounds.\<close>

definition fits :: "int \<Rightarrow> int \<Rightarrow> 'i dim \<Rightarrow> bool" where
  "fits R C d = (0 \<le> rows d + gap d \<and> rows d + gap d \<le> R \<and> 0 \<le> cols d \<and> cols d \<le> C)"

text \<open>
  The invariant of the search: the page is rectangular, the records stand for members of the
  combination whose rectangles are pairwise disjoint, and every cell of those rectangles is
  marked on the page.
\<close>

definition geometry :: "int \<Rightarrow> int \<Rightarrow> 'i dim list \<Rightarrow> 'i state \<Rightarrow> bool" where
  "geometry R C ds s =
     (rect_matrix (nat R) (nat C) (page s) \<and>
      (\<exists>vs. list_all2 (committed_as ds) (coords s) vs \<and>
            pairwise_disjoint (map2 footprint (coords s) vs) \<and>
            (\<forall>X\<in>set (map2 footprint (coords s) vs). X \<subseteq> occupied (page s))))"

lemma geometry_seed:
  assumes "create_matrix R C = Inr pg" and "d \<in> set ds" and "fits R C d"
  shows "geometry R C ds (seed pg d)"
proof -
  have pg: "pg = replicate (nat R) (replicate (nat C) 1)" by (rule create_matrix_Inr[OF assms(1)])
  have RC: "0 \<le> R" "0 \<le> C" using assms(1) by (auto simp: create_matrix_def split: if_splits)
  have rm: "rect_matrix (nat R) (nat C) pg" by (simp add: pg rect_matrix_def)
  let ?h = "rows d + gap d" and ?w = "cols d"
  let ?c = "\<lparr>coord_id = dim_id d, coord_col = 0, coord_row = 0, coord_cols = cols d\<rparr>"
  have f: "footprint ?c d = rect 0 0 ?h ?w" by (simp add: footprint_def)
  have "rect 0 0 ?h ?w \<subseteq> occupied (commit 0 (0 + ?h) 0 (0 + ?w) pg)"
    using assms(3) RC by (intro rect_occupied_commit[OF rm]) (auto simp: fits_def)
  then have sub: "rect 0 0 ?h ?w \<subseteq> occupied (commit 0 ?h 0 ?w pg)" by simp
  have "list_all2 (committed_as ds) [?c] [d]" using assms(2) by (simp add: committed_as_def)
  moreover have "pairwise_disjoint (map2 footprint [?c] [d])" by (simp add: pairwise_disjoint_def)
  moreover have "\<forall>X\<in>set (map2 footprint [?c] [d]). X \<subseteq> occupied (commit 0 ?h 0 ?w pg)"
    using sub f by simp
  moreover have "rect_matrix (nat R) (nat C) (commit 0 ?h 0 ?w pg)"
    by (rule rect_matrix_commit[OF rm])
  ultimately show ?thesis unfolding geometry_def seed_def by (simp del: zip_Cons_Cons) blast
qed

lemma geometry_place:
  assumes g: "geometry R C ds p" and d: "d \<in> set ds" and fit: "fits R C d"
    and fe: "find_empty_cel (page p) = Inr (rw, cl)"
    and vs: "validate_step rw cl (rows d + gap d) (cols d) (page p)"
  shows "geometry R C ds (place p rw cl d)"
proof -
  let ?h = "rows d + gap d" and ?w = "cols d"
  let ?c = "\<lparr>coord_id = dim_id d, coord_col = cl, coord_row = rw, coord_cols = cols d\<rparr>"
  let ?A = "rect rw cl ?h ?w"
  let ?pg = "commit rw (rw + ?h) cl (cl + ?w) (page p)"
  from g obtain vs where rm: "rect_matrix (nat R) (nat C) (page p)"
    and la: "list_all2 (committed_as ds) (coords p) vs"
    and pd: "pairwise_disjoint (map2 footprint (coords p) vs)"
    and sub: "\<forall>X\<in>set (map2 footprint (coords p) vs). X \<subseteq> occupied (page p)"
    unfolding geometry_def by blast
  have nn: "0 \<le> rw" "0 \<le> cl" using find_empty_cel_nonneg[OF fe] by simp_all
  have hw: "0 \<le> ?h" "0 \<le> ?w" using fit by (simp_all add: fits_def)
  have free: "?A \<inter> occupied (page p) = {}"
    by (rule validate_step_free(1)[OF rm nn hw vs])
  have inb: "?A = {} \<or> (rw + ?h \<le> int (nat R) \<and> cl + ?w \<le> int (nat C))"
    by (rule validate_step_free(2)[OF rm nn hw vs])
  have len: "length (coords p) = length vs" by (rule list_all2_lengthD[OF la])
  have m2: "map2 footprint (coords p @ [?c]) (vs @ [d]) = map2 footprint (coords p) vs @ [?A]"
    using len by (simp add: footprint_def)
  have 1: "rect_matrix (nat R) (nat C) ?pg" by (rule rect_matrix_commit[OF rm])
  have 2: "list_all2 (committed_as ds) (coords p @ [?c]) (vs @ [d])"
    using la d by (intro list_all2_appendI) (simp_all add: committed_as_def)
  have "\<forall>X\<in>set (map2 footprint (coords p) vs). X \<inter> ?A = {}"
    using sub free by blast
  then have 3: "pairwise_disjoint (map2 footprint (coords p @ [?c]) (vs @ [d]))"
    unfolding m2 by (rule pairwise_disjoint_snoc[OF pd])
  have A: "?A \<subseteq> occupied ?pg"
  proof (cases "?A = {}")
    case True
    then show ?thesis by simp
  next
    case False
    with inb have "rw + ?h \<le> int (nat R)" "cl + ?w \<le> int (nat C)" by simp_all
    then show ?thesis by (intro rect_occupied_commit[OF rm nn])
  qed
  have "\<forall>X\<in>set (map2 footprint (coords p) vs). X \<subseteq> occupied ?pg"
    using sub occupied_commit_mono[of "page p" rw "rw + ?h" cl "cl + ?w"] by blast
  with A have 4: "\<forall>X\<in>set (map2 footprint (coords p @ [?c]) (vs @ [d])). X \<subseteq> occupied ?pg"
    unfolding m2 by simp
  have pl: "coords (place p rw cl d) = coords p @ [?c]" "page (place p rw cl d) = ?pg"
    by (simp_all add: place_def add.assoc)
  show ?thesis unfolding geometry_def pl using 1 2 3 4 by blast
qed

lemma committed_as_unique:
  assumes "distinct (map dim_id ds)"
    and "list_all2 (committed_as ds) cs vs" and "list_all2 (committed_as ds) cs vs'"
  shows "vs = vs'"
proof -
  have inj: "inj_on dim_id (set ds)" using assms(1) by (simp add: distinct_map)
  have len: "length vs = length vs'"
    using list_all2_lengthD[OF assms(2)] list_all2_lengthD[OF assms(3)] by simp
  have "vs ! i = vs' ! i" if "i < length vs" for i
  proof -
    have i: "i < length cs" using that list_all2_lengthD[OF assms(2)] by simp
    have "committed_as ds (cs ! i) (vs ! i)" by (rule list_all2_nthD[OF assms(2) i])
    moreover have "committed_as ds (cs ! i) (vs' ! i)" by (rule list_all2_nthD[OF assms(3) i])
    ultimately have "vs ! i \<in> set ds" "vs' ! i \<in> set ds" "dim_id (vs ! i) = dim_id (vs' ! i)"
      by (simp_all add: committed_as_def)
    with inj show ?thesis by (simp add: inj_on_def)
  qed
  with len show ?thesis by (simp add: list_eq_iff_nth_eq)
qed

lemma solution_geometry:
  assumes "find_solution l R C = Inr sols" and "s \<in> set sols"
    and "\<forall>d\<in>set (dimensions l). fits R C d"
  shows "geometry R C (dimensions l) s"
proof -
  let ?ds = "dimensions l"
  from assms(1) obtain pg where cm: "create_matrix R C = Inr pg" and
    loop: "find_solution_loop ?ds (map (seed pg) ?ds) [] = Inr sols"
    by (auto simp: find_solution_def split: sum.splits)
  have "\<forall>s\<in>set sols. geometry R C ?ds s \<and> unplaced ?ds s = []"
  proof (rule loop_invariant[OF loop])
    show "\<forall>s\<in>set (map (seed pg) ?ds). geometry R C ?ds s"
      using assms(3) geometry_seed[OF cm] by auto
    show "\<forall>s\<in>set []. geometry R C ?ds s \<and> unplaced ?ds s = []" by simp
  next
    fix p d rw cl
    assume g: "geometry R C ?ds p" and u: "d \<in> set (unplaced ?ds p)"
      and fe: "find_empty_cel (page p) = Inr (rw, cl)"
      and vs: "validate_step rw cl (rows d + gap d) (cols d) (page p)"
    from u have d: "d \<in> set ?ds" by (simp add: unplaced_def)
    with assms(3) have "fits R C d" by blast
    from geometry_place[OF g d this fe vs] show "geometry R C ?ds (place p rw cl d)" .
  qed
  with assms(2) show ?thesis by blast
qed

text \<open>
  Claim C5. For every solution returned by \<open>find_solution\<close> on a combination whose
  variants all fit within the page bounds, the placement records can be read as members of
  the combination (same id, same width) so that the rectangles, \<open>rows + gap\<close> high and
  \<open>cols\<close> wide at the recorded row and column, are pairwise disjoint as sets of cells.
  When the ids of the combination are distinct there is one such reading only, and the
  rectangles of the records are pairwise disjoint.
\<close>

theorem solution_rectangles_disjoint:
  assumes "find_solution l R C = Inr sols" and "s \<in> set sols"
    and "\<forall>d\<in>set (dimensions l). fits R C d"
  shows "(\<exists>vs. list_all2 (committed_as (dimensions l)) (coords s) vs \<and>
               pairwise_disjoint (map2 footprint (coords s) vs)) \<and>
         (distinct (map dim_id (dimensions l)) \<longrightarrow>
            (\<forall>vs. list_all2 (committed_as (dimensions l)) (coords s) vs \<longrightarrow>
                  pairwise_disjoint (map2 footprint (coords s) vs)))"
proof -
  from solution_geometry[OF assms] obtain vs where
    la: "list_all2 (committed_as (dimensions l)) (coords s) vs" and
    pd: "pairwise_disjoint (map2 footprint (coords s) vs)"
    unfolding geometry_def by blast
  have "pairwise_disjoint (map2 footprint (coords s) vs')"
    if "distinct (map dim_id (dimensions l))"
      and "list_all2 (committed_as (dimensions l)) (coords s) vs'" for vs'
    using committed_as_unique[OF that(1) la that(2)] pd by simp
  with la pd show ?thesis by blast
qed

theorem solution_rectangles_disjoint_witness:
  "find_solution scenario_c 1 2 = Inr [scenario_c_BA, scenario_c_AB] \<and>
   scenario_c_BA \<in> set [scenario_c_BA, scenario_c_AB] \<and>
   list_all (fits 1 2) (dimensions scenario_c) \<and>
   distinct (map dim_id (dimensions scenario_c)) \<and>
   (\<exists>vs. list_all2 (committed_as (dimensions scenario_c)) (coords scenario_c_BA) vs \<and>
         pairwise_disjoint (map2 footprint (coords scenario_c_BA) vs)) \<and>
   list_all2 (committed_as (dimensions scenario_c)) (coords scenario_c_BA)
     [\<lparr>dim_id = ''B'', cols = 1, rows = 1, gap = 0, area = 1\<rparr>,
      \<lparr>dim_id = ''A'', cols = 1, rows = 1, gap = 0, area = 1\<rparr>] \<and>
   pairwise_disjoint (map2 footprint (coords scenario_c_BA)
     [\<lparr>dim_id = ''B'', cols = 1, rows = 1, gap = 0, area = 1\<rparr>,
      \<lparr>dim_id = ''A'', cols = 1, rows = 1, gap = 0, area = 1\<rparr>])"
proof -
  have m: "scenario_c_BA \<in> set [scenario_c_BA, scenario_c_AB]" by simp
  have f: "\<forall>d\<in>set (dimensions scenario_c). fits 1 2 d" by (simp add: scenario_c_def fits_def)
  have f': "list_all (fits 1 2) (dimensions scenario_c)" by (simp add: scenario_c_def fits_def)
  have d: "distinct (map dim_id (dimensions scenario_c))" by (simp add: scenario_c_def)
  have la: "list_all2 (committed_as (dimensions scenario_c)) (coords scenario_c_BA)
     [\<lparr>dim_id = ''B'', cols = 1, rows = 1, gap = 0, area = 1\<rparr>,
      \<lparr>dim_id = ''A'', cols = 1, rows = 1, gap = 0, area = 1\<rparr>]"
    by (simp add: scenario_c_def scenario_c_BA_def committed_as_def)
  from solution_rectangles_disjoint [OF scenario_c_run m f] scenario_c_run m f' d la
  show ?thesis by blast
qed

section \<open>fast_verify\<close>

text \<open>
  \<open>signal.correlate(in1, in2, 'valid')\<close> of scipy, on two-dimensional integer arrays. A list
  of rows does not record the number of columns of an array without rows, so the shapes are
  passed beside the arrays. In this mode one array must be at least as large as the other in
  every dimension, otherwise \<open>ValueError\<close> is raised; an array without cells makes the choice
  of the method fail with \<open>ValueError\<close> as well. When \<open>in1\<close> is the larger one, the entry at
  \<open>(i, j)\<close> is the sum of the products of \<open>in2\<close> with the window of \<open>in1\<close> anchored there.
  When only \<open>in2\<close> is the larger one the operands are exchanged and the result is reversed
  along both axes. The sums are exact integers.
\<close>

definition correlate :: "nat \<times> nat \<Rightarrow> matrix \<Rightarrow> nat \<times> nat \<Rightarrow> matrix \<Rightarrow> error + matrix" where
  "correlate s1 in1 s2 in2 =
     (case (s1, s2) of ((r1, c1), (r2, c2)) \<Rightarrow>
        if \<not> (r2 \<le> r1 \<and> c2 \<le> c1) \<and> \<not> (r1 \<le> r2 \<and> c1 \<le> c2) then Inl ValueError
        else if r1 = 0 \<or> c1 = 0 \<or> r2 = 0 \<or> c2 = 0 then Inl ValueError
        else if r2 \<le> r1 \<and> c2 \<le> c1
        then Inr (map (\<lambda>i. map (\<lambda>j.
                    sum_list (map (\<lambda>a. sum_list (map (\<lambda>b. in1 ! (i + a) ! (j + b) * in2 ! a ! b)
                      [0..<c2])) [0..<r2]))
                  [0..<c1 - c2 + 1]) [0..<r1 - r2 + 1])
        else Inr (map (\<lambda>i. map (\<lambda>j.
                    sum_list (map (\<lambda>a. sum_list (map (\<lambda>b.
                        in2 ! (r2 - r1 - i + a) ! (c2 - c1 - j + b) * in1 ! a ! b)
                      [0..<c1])) [0..<r1]))
                  [0..<c2 - c1 + 1]) [0..<r2 - r1 + 1]))"

text \<open>
  The \<open>for dim in dimensions\<close> loop of \<open>fast_verify\<close>, on a page of \<open>R\<close> rows and \<open>C\<close>
  columns. \<open>max_peak\<close> is the product of the shape of \<open>article_area\<close>.
\<close>

fun fast_verify_loop :: "int \<Rightarrow> int \<Rightarrow> matrix \<Rightarrow> 'i dim list \<Rightarrow> error + bool" where
  "fast_verify_loop R C pg [] = Inr True"
| "fast_verify_loop R C pg (d # ds) =
     (case create_matrix (rows d + gap d) (cols d) of
        Inl e \<Rightarrow> Inl e
      | Inr article_area \<Rightarrow>
          (case correlate (nat R, nat C) pg (nat (rows d + gap d), nat (cols d)) article_area of
             Inl e \<Rightarrow> Inl e
           | Inr c \<Rightarrow>
               (case positions ((rows d + gap d) * cols d) c of
                  [] \<Rightarrow> Inr False
                | (rw, cl) # _ \<Rightarrow>
                    fast_verify_loop R C
                      (commit (int rw) (int rw + rows d + gap d) (int cl) (int cl + cols d) pg) ds)))"

text \<open>\<open>reversed(sorted(dims, key=area))\<close>: a stable sort, then reversed.\<close>

definition fast_verify :: "'i layout \<Rightarrow> int \<Rightarrow> int \<Rightarrow> error + bool" where
  "fast_verify l page_rows page_columns =
     (case create_matrix page_rows page_columns of
        Inl e \<Rightarrow> Inl e
      | Inr pg \<Rightarrow> fast_verify_loop page_rows page_columns pg (rev (sort_key area (dimensions l))))"

section \<open>The pipeline: generate_layouts and generate_tile_orders\<close>

text \<open>
  Four calls of the pipeline do not pass the positional arguments the called function has:
  \<open>filter\<close> calls \<open>validate_area\<close> with the combination alone, \<open>generator_fast_verify\<close> is
  called with three arguments and has one parameter, \<open>fast_verify\<close> is called with the
  layout alone and \<open>find_solution\<close> with the layout and \<open>False\<close>. Such a call raises
  \<open>TypeError\<close> before the body runs. A parameter the call leaves out is \<open>None\<close> below, and
  the arguments a call passes beyond the parameters are a list.
\<close>

definition validate_area_call :: "'i dim list \<Rightarrow> int option \<Rightarrow> int option \<Rightarrow> error + bool" where
  "validate_area_call ds columns rws =
     (case (columns, rws) of
        (Some c, Some r) \<Rightarrow> Inr (validate_area ds c r)
      | _ \<Rightarrow> Inl TypeError)"

definition fast_verify_call :: "'i layout \<Rightarrow> int option \<Rightarrow> int option \<Rightarrow> error + bool" where
  "fast_verify_call l page_rows page_columns =
     (case (page_rows, page_columns) of
        (Some r, Some c) \<Rightarrow> fast_verify l r c
      | _ \<Rightarrow> Inl TypeError)"

definition find_solution_call ::
  "'i layout \<Rightarrow> int option \<Rightarrow> int option \<Rightarrow> error + 'i state list" where
  "find_solution_call l rws columns =
     (case (rws, columns) of
        (Some r, Some c) \<Rightarrow> find_solution l r c
      | _ \<Rightarrow> Inl TypeError)"

text \<open>\<open>filter(f, xs)\<close>, consumed to the end: the first call that raises ends it.\<close>

fun filter_call :: "('a \<Rightarrow> error + bool) \<Rightarrow> 'a list \<Rightarrow> error + 'a list" where
  "filter_call f [] = Inr []"
| "filter_call f (x # xs) =
     (case f x of
        Inl e \<Rightarrow> Inl e
      | Inr b \<Rightarrow>
          (case filter_call f xs of
             Inl e \<Rightarrow> Inl e
           | Inr ys \<Rightarrow> Inr (if b then x # ys else ys)))"

text \<open>
  \<open>generate_layouts\<close>: \<open>product(*articles)\<close> is \<open>product_lists\<close>, and \<open>sorted\<close> consumes the
  filtered and mapped combinations before the function returns.
\<close>

definition generate_layouts :: "'i dim list list \<Rightarrow> error + 'i layout list" where
  "generate_layouts articles =
     (case filter_call (\<lambda>ds. validate_area_call ds None None) (product_lists articles) of
        Inl e \<Rightarrow> Inl e
      | Inr layouts_all \<Rightarrow> Inr (rev (sort_key layout_area (map add_area layouts_all))))"

text \<open>
  A generator is the list of what it yields, with the exception that ended it, if one did.
\<close>

fun generator_fast_verify :: "'i layout list \<Rightarrow> 'i layout list \<times> error option" where
  "generator_fast_verify [] = ([], None)"
| "generator_fast_verify (l # ls) =
     (case fast_verify_call l None None of
        Inl e \<Rightarrow> ([], Some e)
      | Inr ok \<Rightarrow>
          (case generator_fast_verify ls of
             (ys, e) \<Rightarrow> (if ok then l # ys else ys, e)))"

definition generator_fast_verify_call ::
  "'i layout list \<Rightarrow> int list \<Rightarrow> error + ('i layout list \<times> error option)" where
  "generator_fast_verify_call layouts surplus =
     (if surplus \<noteq> [] then Inl TypeError else Inr (generator_fast_verify layouts))"

text \<open>
  The \<open>for layout in ...\<close> loop of \<open>generate_tile_orders\<close> over the layouts the inner generator
  yields, \<open>e\<close> being the exception that ends the inner generator. \<open>False\<close> is passed for
  \<open>rows\<close>, the integer 0.
\<close>

fun tile_orders_loop ::
  "'i layout list \<Rightarrow> error option \<Rightarrow> nat \<Rightarrow> 'i state list list \<times> error option" where
  "tile_orders_loop [] e count = ([], e)"
| "tile_orders_loop (l # ls) e count =
     (case find_solution_call l (Some 0) None of
        Inl e' \<Rightarrow> ([], Some e')
      | Inr sols \<Rightarrow>
          if sols \<noteq> [] \<and> count < 5
          then (case tile_orders_loop ls e (count + 1) of (gs, e') \<Rightarrow> (sols # gs, e'))
          else tile_orders_loop ls e count)"

definition generate_tile_orders ::
  "'i dim list list \<Rightarrow> int \<Rightarrow> int \<Rightarrow> 'i state list list \<times> error option" where
  "generate_tile_orders articles rws columns =
     (case generate_layouts articles of
        Inl e \<Rightarrow> ([], Some e)
      | Inr layouts \<Rightarrow>
          (case generator_fast_verify_call layouts [rws, columns] of
             Inl e \<Rightarrow> ([], Some e)
           | Inr (ys, e) \<Rightarrow> tile_orders_loop ys e 0))"

lemma filter_call_missing:
  "filter_call (\<lambda>ds. validate_area_call ds None None) xs = (if xs = [] then Inr [] else Inl TypeError)"
  by (cases xs) (simp_all add: validate_area_call_def)

text \<open>
  Whatever the catalog, \<open>generate_layouts\<close> yields no combination: it raises on the first
  combination of the product, and returns nothing when the product is empty.
\<close>

lemma generate_layouts_result:
  "generate_layouts articles = (if product_lists articles = [] then Inr [] else Inl TypeError)"
  by (simp add: generate_layouts_def filter_call_missing)

text \<open>Whatever the catalog and the page, the first pull of \<open>generate_tile_orders\<close> raises.\<close>

lemma generate_tile_orders_raises:
  "generate_tile_orders articles rws columns = ([], Some TypeError)"
  by (simp add: generate_tile_orders_def generate_layouts_result generator_fast_verify_call_def)

text \<open>A catalog of one article with one variant of area 6, for a page of two rows and two columns.\<close>

definition too_large :: "string dim" where
  "too_large = \<lparr>dim_id = ''A'', cols = 2, rows = 2, gap = 1, area = 6\<rparr>"

text \<open>
  Claim C3. The combination of area 6 exceeds the page area 4 and \<open>validate_area\<close>, given the
  page, rejects it; \<open>generate_layouts\<close> does not drop it but raises \<open>TypeError\<close>. The
  combination of scenario C, of area 2 on a page of area 2, is not yielded either.
\<close>

theorem generate_layouts_type_error:
  "\<not> validate_area [too_large] 2 2 \<and> generate_layouts [[too_large]] = Inl TypeError \<and>
   validate_area (dimensions scenario_c) 2 1 \<and>
   generate_layouts (map (\<lambda>d. [d]) (dimensions scenario_c)) = Inl TypeError"
  by code_simp


section \<open>fast_verify and members that exceed the page\<close>

text \<open>
  A page of four rows and five columns and three articles: Y of three rows (gap included)
  and three columns, Z of two rows and three columns, X of five rows and one column. The
  areas add up to the page area, and X is higher than the page.
\<close>

definition blocked :: "string layout" where
  "blocked = add_area [\<lparr>dim_id = ''X'', cols = 1, rows = 5, gap = 0, area = 5\<rparr>,
                   \<lparr>dim_id = ''Y'', cols = 3, rows = 2, gap = 1, area = 9\<rparr>,
                   \<lparr>dim_id = ''Z'', cols = 3, rows = 1, gap = 1, area = 6\<rparr>]"

lemma create_matrix_error: "create_matrix a b = Inl e \<Longrightarrow> e = ValueError"
  by (simp add: create_matrix_def split: if_splits)

lemma correlate_error: "correlate s1 a s2 b = Inl e \<Longrightarrow> e = ValueError"
  by (cases s1; cases s2) (simp add: correlate_def split: if_splits)

lemma sum_list_le:
  assumes "\<forall>x\<in>set xs. f x \<le> (k::int)"
  shows "sum_list (map f xs) \<le> int (length xs) * k"
  using assms by (induction xs) (auto simp: algebra_simps)

lemma positions_empty:
  assumes "\<forall>r\<in>set m. v \<notin> set r"
  shows "positions v m = []"
proof -
  have "filter (\<lambda>(j, x). x = v) (enumerate n r) = []" if "v \<notin> set r" for r n
    using that by (auto simp: filter_empty_conv in_set_enumerate_eq)
  then show ?thesis using assms
    by (auto simp: positions_def in_set_enumerate_eq)
qed


text \<open>No cell of the page is larger than 1: cells are 1 or -1.\<close>

definition cells_le_one :: "nat \<Rightarrow> nat \<Rightarrow> matrix \<Rightarrow> bool" where
  "cells_le_one R C m = (\<forall>i<R. \<forall>j<C. m ! i ! j \<le> 1)"

lemma cells_le_one_fresh: "cells_le_one R C (replicate R (replicate C 1))"
  by (simp add: cells_le_one_def)

lemma cells_le_one_commit:
  assumes "rect_matrix R C m" and "cells_le_one R C m"
  shows "cells_le_one R C (commit r0 r1 c0 c1 m)"
  unfolding cells_le_one_def
proof (intro allI impI)
  fix i j assume i: "i < R" and j: "j < C"
  have li: "i < length m" using assms(1) i by (simp add: rect_matrix_def)
  then have "m ! i \<in> set m" by simp
  then have lj: "j < length (m ! i)" using assms(1) j by (simp add: rect_matrix_def)
  have "m ! i ! j \<le> 1" using assms(2) i j by (simp add: cells_le_one_def)
  then show "commit r0 r1 c0 c1 m ! i ! j \<le> 1" by (simp add: commit_nth[OF li lj])
qed

text \<open>
  When the kernel of ones is the larger operand, every entry of the correlation is the sum
  of the cells of the page.
\<close>

lemma correlate_larger_kernel:
  assumes c: "correlate (r1, c1) pg (r2, c2) (replicate r2 (replicate c2 1)) = Inr c"
    and big: "\<not> (r2 \<le> r1 \<and> c2 \<le> c1)" and le: "cells_le_one r1 c1 pg"
  shows "\<forall>r\<in>set c. \<forall>x\<in>set r. x \<le> int r1 * int c1"
proof -
  let ?K = "replicate r2 (replicate c2 (1::int))"
  let ?S = "\<lambda>i j. sum_list (map (\<lambda>a. sum_list (map (\<lambda>b.
                ?K ! (r2 - r1 - i + a) ! (c2 - c1 - j + b) * pg ! a ! b) [0..<c1])) [0..<r1])"
  from c big have dom: "r1 \<le> r2" "c1 \<le> c2"
    and ceq: "c = map (\<lambda>i. map (\<lambda>j. ?S i j) [0..<c2 - c1 + 1]) [0..<r2 - r1 + 1]"
    by (auto simp: correlate_def split: if_splits)
  have S: "?S i j \<le> int r1 * int c1" if i: "i < r2 - r1 + 1" and j: "j < c2 - c1 + 1" for i j
  proof -
    have inner: "sum_list (map (\<lambda>b. ?K ! (r2 - r1 - i + a) ! (c2 - c1 - j + b) * pg ! a ! b) [0..<c1])
                   \<le> int c1" if a: "a < r1" for a
    proof -
      have "\<forall>b\<in>set [0..<c1]. ?K ! (r2 - r1 - i + a) ! (c2 - c1 - j + b) * pg ! a ! b \<le> 1"
      proof
        fix b assume "b \<in> set [0..<c1]"
        then have b: "b < c1" by simp
        have ia: "r2 - r1 - i + a < r2" using a i dom by linarith
        have jb: "c2 - c1 - j + b < c2" using b j dom by linarith
        have "?K ! (r2 - r1 - i + a) ! (c2 - c1 - j + b) = 1" using ia jb by simp
        moreover have "pg ! a ! b \<le> 1" using le a b by (simp add: cells_le_one_def)
        ultimately show "?K ! (r2 - r1 - i + a) ! (c2 - c1 - j + b) * pg ! a ! b \<le> 1" by simp
      qed
      from sum_list_le[OF this] show ?thesis by simp
    qed
    have "\<forall>a\<in>set [0..<r1].
            sum_list (map (\<lambda>b. ?K ! (r2 - r1 - i + a) ! (c2 - c1 - j + b) * pg ! a ! b) [0..<c1])
              \<le> int c1"
      using inner by simp
    from sum_list_le[OF this] show ?thesis by simp
  qed
  show ?thesis
  proof (intro ballI)
    fix r x assume r: "r \<in> set c" and x: "x \<in> set r"
    from r ceq obtain i where i: "i < r2 - r1 + 1" and req: "r = map (\<lambda>j. ?S i j) [0..<c2 - c1 + 1]"
      by (auto simp del: upt_Suc)
    from x req obtain j where j: "j < c2 - c1 + 1" and xeq: "x = ?S i j"
      by (auto simp del: upt_Suc)
    show "x \<le> int r1 * int c1" unfolding xeq by (rule S[OF i j])
  qed
qed


lemma oversize_no_position:
  assumes le: "cells_le_one (nat R) (nat C) pg"
    and over: "R < h \<or> C < w"
    and cm: "create_matrix h w = Inr art"
    and co: "correlate (nat R, nat C) pg (nat h, nat w) art = Inr c"
  shows "positions (h * w) c = []"
proof -
  from co have "nat R \<noteq> 0" and "nat C \<noteq> 0"
    by (auto simp: correlate_def split: if_splits)
  then have R: "0 < R" and C: "0 < C" by simp_all
  have art: "art = replicate (nat h) (replicate (nat w) 1)" by (rule create_matrix_Inr[OF cm])
  have big: "\<not> (nat h \<le> nat R \<and> nat w \<le> nat C)" using over R C by linarith
  from co big have dom: "nat R \<le> nat h" "nat C \<le> nat w"
    by (auto simp: correlate_def split: if_splits)
  have bound: "\<forall>r\<in>set c. \<forall>x\<in>set r. x \<le> int (nat R) * int (nat C)"
    by (rule correlate_larger_kernel[OF co[unfolded art] big le])
  have RC: "R \<le> h" "C \<le> w" using dom R C by linarith+
  have "R * C < h * w"
  proof (cases "R < h")
    case True
    then have "R * C < h * C" using C by simp
    also have "h * C \<le> h * w" using RC R by (simp add: mult_left_mono)
    finally show ?thesis .
  next
    case False
    with over have "C < w" by simp
    then have "R * C < R * w" using R by simp
    also have "R * w \<le> h * w" using RC C by (simp add: mult_right_mono)
    finally show ?thesis .
  qed
  then have lt: "int (nat R) * int (nat C) < h * w" using R C by simp
  have "\<forall>r\<in>set c. h * w \<notin> set r"
  proof (intro ballI notI)
    fix r assume "r \<in> set c" and "h * w \<in> set r"
    with bound have "h * w \<le> int (nat R) * int (nat C)" by blast
    with lt show False by simp
  qed
  then show ?thesis by (rule positions_empty)
qed

lemma fast_verify_loop_oversize:
  assumes "rect_matrix (nat R) (nat C) pg" and "cells_le_one (nat R) (nat C) pg"
    and "\<exists>d\<in>set ds. R < rows d + gap d \<or> C < cols d"
  shows "fast_verify_loop R C pg ds = Inl ValueError \<or> fast_verify_loop R C pg ds = Inr False"
  using assms
proof (induction ds arbitrary: pg)
  case Nil
  then show ?case by simp
next
  case (Cons v ds)
  let ?h = "rows v + gap v" and ?w = "cols v"
  show ?case
  proof (cases "create_matrix ?h ?w")
    case (Inl e)
    then show ?thesis using create_matrix_error[OF Inl] by simp
  next
    case cm: (Inr art)
    show ?thesis
    proof (cases "correlate (nat R, nat C) pg (nat ?h, nat ?w) art")
      case (Inl e)
      then show ?thesis using cm correlate_error[OF Inl] by simp
    next
      case co: (Inr c)
      show ?thesis
      proof (cases "positions (?h * ?w) c")
        case Nil
        then show ?thesis using cm co by simp
      next
        case (Cons p ps)
        obtain rw cl where p: "p = (rw, cl)" by (cases p)
        let ?pg = "commit (int rw) (int rw + rows v + gap v) (int cl) (int cl + cols v) pg"
        have step: "fast_verify_loop R C pg (v # ds) = fast_verify_loop R C ?pg ds"
          using cm co Cons p by simp
        have "\<not> (R < ?h \<or> C < ?w)"
        proof
          assume "R < ?h \<or> C < ?w"
          from oversize_no_position[OF Cons.prems(2) this cm co] Cons
          show False by simp
        qed
        with Cons.prems(3) have ex: "\<exists>d\<in>set ds. R < rows d + gap d \<or> C < cols d" by auto
        have "rect_matrix (nat R) (nat C) ?pg" by (rule rect_matrix_commit[OF Cons.prems(1)])
        moreover have "cells_le_one (nat R) (nat C) ?pg"
          by (rule cells_le_one_commit[OF Cons.prems(1,2)])
        ultimately show ?thesis unfolding step using ex by (rule Cons.IH)
      qed
    qed
  qed
qed

lemma fast_verify_single_mixed:
  assumes "dimensions l = [d]"
    and "(R < rows d + gap d \<and> cols d < C) \<or> (rows d + gap d < R \<and> C < cols d)"
  shows "fast_verify l R C = Inl ValueError"
proof (cases "create_matrix R C")
  case (Inl e)
  then show ?thesis using create_matrix_error[OF Inl] by (simp add: fast_verify_def)
next
  case pg: (Inr pg)
  then have RC: "0 \<le> R" "0 \<le> C" by (auto simp: create_matrix_def split: if_splits)
  have loop: "fast_verify l R C = fast_verify_loop R C pg [d]"
    using pg assms(1) by (simp add: fast_verify_def)
  show ?thesis
  proof (cases "create_matrix (rows d + gap d) (cols d)")
    case (Inl e)
    then show ?thesis using create_matrix_error[OF Inl] by (simp add: loop)
  next
    case art: (Inr art)
    then have hw: "0 \<le> rows d + gap d" "0 \<le> cols d"
      by (auto simp: create_matrix_def split: if_splits)
    have "correlate (nat R, nat C) pg (nat (rows d + gap d), nat (cols d)) art = Inl ValueError"
      using assms(2) RC hw by (auto simp: correlate_def)
    then show ?thesis using art by (simp add: loop)
  qed
qed

text \<open>The article X alone.\<close>

definition tall :: "string layout" where
  "tall = add_area [\<lparr>dim_id = ''X'', cols = 1, rows = 5, gap = 0, area = 5\<rparr>]"

text \<open>
  Y is examined first and placed, Z finds no position beside it, and \<open>fast_verify\<close> returns
  \<open>False\<close> before X is examined.
\<close>

theorem fast_verify_oversize_counterexample:
  "\<lparr>dim_id = ''X'', cols = 1, rows = 5, gap = 0, area = 5\<rparr> \<in> set (dimensions blocked) \<and>
   (4::int) < 5 + 0 \<and> fast_verify blocked 4 5 = Inr False"
  by code_simp

text \<open>
  Claim C10, as amended. For a combination with a member whose footprint, \<open>rows + gap\<close> by
  \<open>cols\<close>, exceeds the page in at least one dimension, \<open>fast_verify\<close> does not return
  \<open>True\<close>: it raises \<open>ValueError\<close> or returns \<open>False\<close>. When that member is the only one
  and it exceeds the page in one dimension and is smaller than the page in the other, the
  correlation raises and \<open>fast_verify\<close> raises \<open>ValueError\<close>.
\<close>

theorem fast_verify_oversize_not_accepted:
  assumes "d \<in> set (dimensions l)" and "R < rows d + gap d \<or> C < cols d"
  shows "(fast_verify l R C = Inl ValueError \<or> fast_verify l R C = Inr False) \<and>
         (dimensions l = [d] \<longrightarrow>
            (R < rows d + gap d \<and> cols d < C) \<or> (rows d + gap d < R \<and> C < cols d) \<longrightarrow>
            fast_verify l R C = Inl ValueError)"
proof
  show "fast_verify l R C = Inl ValueError \<or> fast_verify l R C = Inr False"
  proof (cases "create_matrix R C")
    case (Inl e)
    then show ?thesis using create_matrix_error[OF Inl] by (simp add: fast_verify_def)
  next
    case (Inr pg)
    have pg: "pg = replicate (nat R) (replicate (nat C) 1)" by (rule create_matrix_Inr[OF Inr])
    have rm: "rect_matrix (nat R) (nat C) pg" by (simp add: pg rect_matrix_def)
    have le: "cells_le_one (nat R) (nat C) pg" unfolding pg by (rule cells_le_one_fresh)
    have "\<exists>d\<in>set (rev (sort_key area (dimensions l))). R < rows d + gap d \<or> C < cols d"
      using assms by auto
    from fast_verify_loop_oversize[OF rm le this] show ?thesis
      using Inr by (simp add: fast_verify_def)
  qed
  show "dimensions l = [d] \<longrightarrow>
          (R < rows d + gap d \<and> cols d < C) \<or> (rows d + gap d < R \<and> C < cols d) \<longrightarrow>
          fast_verify l R C = Inl ValueError"
    using fast_verify_single_mixed by blast
qed

lemma blocked_run: "fast_verify blocked 4 5 = Inr False"
  by code_simp

theorem fast_verify_oversize_not_accepted_witness:
  "\<lparr>dim_id = ''X'', cols = 1, rows = 5, gap = 0, area = 5\<rparr> \<in> set (dimensions blocked) \<and>
   (4::int) < 5 + 0 \<and>
   (fast_verify blocked 4 5 = Inl ValueError \<or> fast_verify blocked 4 5 = Inr False) \<and>
   fast_verify blocked 4 5 = Inr False \<and>
   dimensions tall = [\<lparr>dim_id = ''X'', cols = 1, rows = 5, gap = 0, area = 5\<rparr>] \<and>
   (1::int) < 5 \<and> fast_verify tall 4 5 = Inl ValueError"
proof -
  let ?X = "\<lparr>dim_id = ''X'', cols = 1, rows = 5, gap = 0, area = 5\<rparr> :: string dim"
  have m: "?X \<in> set (dimensions blocked)" by (simp add: blocked_def add_area_def)
  have o: "(4::int) < rows ?X + gap ?X \<or> (5::int) < cols ?X" by simp
  have t: "dimensions tall = [?X]" by (simp add: tall_def add_area_def)
  have mt: "?X \<in> set (dimensions tall)" by (simp add: t)
  have x: "((4::int) < rows ?X + gap ?X \<and> cols ?X < (5::int)) \<or>
           (rows ?X + gap ?X < (4::int) \<and> (5::int) < cols ?X)" by simp
  from fast_verify_oversize_not_accepted [OF m o] fast_verify_oversize_not_accepted [OF mt o] t x
    blocked_run m
  show ?thesis by simp
qed

end
